theory Spec2Isabelle
  imports Main "HOL-Library.Sublist"
begin

section \<open>Strings as the pollers use them\<close>

text \<open>
  Message bodies and handles are modelled as \<open>string\<close>: lists of 8-bit code units, read
  as the code points U+0000 to U+00FF (Latin-1). On these, JavaScript's \<open>toLowerCase\<close>
  works one code unit at a time: the letters U+0041 to U+005A (\<open>A\<close>..\<open>Z\<close>) and
  U+00C0 to U+00DE, the multiplication sign U+00D7 excepted, move up by 32 (which sets
  bit 5), and every other code unit stays. Strings with code units above U+00FF are outside
  the type. \<open>str_includes s t\<close> is \<open>s.includes(t)\<close>: \<open>t\<close> occurs in \<open>s\<close> as a
  contiguous run of code units.
\<close>

definition isUpperCase_char :: "char \<Rightarrow> bool" where
  "isUpperCase_char c =
     (let n = (of_char c :: nat)
      in (65 \<le> n \<and> n \<le> 90) \<or> (192 \<le> n \<and> n \<le> 222 \<and> n \<noteq> 215))"

definition toLowerCase_char :: "char \<Rightarrow> char" where
  "toLowerCase_char c =
     (if isUpperCase_char c
      then Char (digit0 c) (digit1 c) (digit2 c) (digit3 c) (digit4 c) True (digit6 c) (digit7 c)
      else c)"

definition toLowerCase :: "string \<Rightarrow> string" where
  "toLowerCase s = map toLowerCase_char s"

fun str_includes :: "string \<Rightarrow> string \<Rightarrow> bool" where
  "str_includes [] t = (t = [])"
| "str_includes (c # cs) t = (prefix t (c # cs) \<or> str_includes cs t)"

section \<open>Data model\<close>

text \<open>
  A row of the \<open>messages\<close> table, with the two fields the pollers read. \<open>body\<close> is
  \<open>None\<close> when the field is \<open>null\<close> or \<open>undefined\<close>.
\<close>

record message =
  msg_id :: string
  body :: "string option"

text \<open>
  The mutable state of a poller: the module-level variable \<open>lastSeenId\<close> (named
  \<open>lastSeenMessageId\<close> in the unified poller; \<open>None\<close> is \<open>null\<close>) and the id stored in
  \<open>CACHE_FILE\<close> (\<open>None\<close> when the file is absent or cannot be parsed).
\<close>

record poller =
  lastSeenId :: "string option"
  cache_file :: "string option"

text \<open>The shell commands handed to \<open>execPromise\<close>.\<close>

datatype cmd = HasSession | SendKeysLiteral | Sleep | SendKeysEnter

text \<open>
  What the outside world does during one cycle: the outcome of the fetch (\<open>Threw\<close>: the
  request or the JSON decoding rejects; \<open>Failed\<close>: \<open>!response.ok\<close>, or \<open>error\<close> set in
  the Supabase result; \<open>Rows d\<close>: the decoded \<open>data\<close>, \<open>None\<close> for \<open>null\<close>), whether
  \<open>fs.writeFileSync\<close> succeeds, whether a failing write fails only after it has opened
  the file (the call opens with truncation and writes in place, so the file is then left
  empty or cut short), and which shell commands succeed.
\<close>

datatype fetched = Threw | Failed | Rows "message list option"

record env =
  fetched :: fetched
  write_ok :: bool
  write_truncates :: bool
  exec_ok :: "cmd \<Rightarrow> bool"

text \<open>
  The observable actions of a cycle, in order. \<open>Dispatch steps\<close> is one dispatch attempt
  with the shell commands it issued and whether each one succeeded. Output written with
  \<open>console.log\<close> is not recorded; \<open>console.error\<close> and \<open>console.warn\<close> are.
\<close>

datatype action =
    Fetch
  | WriteFile string
  | WriteFileThrew
  | Dispatch "(cmd \<times> bool) list"
  | ConsoleError
  | ConsoleWarn

datatype completion = Normal | Thrown

text \<open>JavaScript's \<open>!lastSeenId\<close>: \<open>null\<close> and the empty string are falsy.\<close>

definition falsy :: "string option \<Rightarrow> bool" where
  "falsy w = (case w of None \<Rightarrow> True | Some i \<Rightarrow> i = [])"

text \<open>
  A sequence of awaited \<open>execPromise\<close> calls: the first command that fails rejects, and the
  commands after it are not issued.
\<close>

fun execPromise :: "(cmd \<Rightarrow> bool) \<Rightarrow> cmd list \<Rightarrow> (cmd \<times> bool) list" where
  "execPromise ok [] = []"
| "execPromise ok (c # cs) = (if ok c then (c, True) # execPromise ok cs else [(c, False)])"

definition rejected :: "(cmd \<times> bool) list \<Rightarrow> bool" where
  "rejected steps = (\<not> list_all snd steps)"

text \<open>
  \<open>lastSeenId = msg.id; fs.writeFileSync(CACHE_FILE, ...)\<close>: the variable is assigned
  first; the write then either replaces the cached id or throws. A write that throws
  before the file is opened leaves the file as it was; one that throws after the open leaves
  a file that no longer parses, which the start-up code reads as no watermark.
\<close>

definition advance :: "string \<Rightarrow> env \<Rightarrow> poller \<Rightarrow> completion \<times> poller \<times> action list" where
  "advance i e s =
     (let s1 = s\<lparr>lastSeenId := Some i\<rparr> in
      if write_ok e then (Normal, s1\<lparr>cache_file := Some i\<rparr>, [WriteFile i])
      else if write_truncates e then (Thrown, s1\<lparr>cache_file := None\<rparr>, [WriteFileThrew])
      else (Thrown, s1, [WriteFileThrew]))"

section \<open>The minimal poller\<close>

text \<open>The tests of \<open>poll\<close> on the message body.\<close>

definition selfAuthored_poll :: "string \<Rightarrow> string \<Rightarrow> bool" where
  "selfAuthored_poll handle b = str_includes b handle"

definition trigger_poll :: "string \<Rightarrow> string \<Rightarrow> bool" where
  "trigger_poll handle b =
     (str_includes (toLowerCase b) ''check room'' \<or> str_includes b (CHR ''@'' # handle))"

text \<open>
  The body of the \<open>try\<close> block of \<open>poll\<close>, after the request has been issued. Reading
  \<open>msg.body.includes\<close> on a body that is \<open>null\<close> throws a \<open>TypeError\<close>.
\<close>

definition poll_try :: "string \<Rightarrow> env \<Rightarrow> poller \<Rightarrow> completion \<times> poller \<times> action list" where
  "poll_try handle e s =
     (case fetched e of
        Threw \<Rightarrow> (Thrown, s, [])
      | Failed \<Rightarrow> (Normal, s, [ConsoleError])
      | Rows None \<Rightarrow> (Normal, s, [])
      | Rows (Some []) \<Rightarrow> (Normal, s, [])
      | Rows (Some (msg # rest)) \<Rightarrow>
          if falsy (lastSeenId s) then advance (msg_id msg) e s
          else if Some (msg_id msg) \<noteq> lastSeenId s then
            (case body msg of
               None \<Rightarrow> (Thrown, s, [])
             | Some b \<Rightarrow>
                 if \<not> selfAuthored_poll handle b then
                   (case advance (msg_id msg) e s of
                      (Thrown, s1, tr) \<Rightarrow> (Thrown, s1, tr)
                    | (Normal, s1, tr) \<Rightarrow>
                        if trigger_poll handle b then
                          (let steps =
                             execPromise (exec_ok e) [SendKeysLiteral, Sleep, SendKeysEnter]
                           in (if rejected steps then Thrown else Normal, s1,
                               tr @ [Dispatch steps]))
                        else (Normal, s1, tr))
                 else (Normal, s, []))
          else (Normal, s, []))"

text \<open>\<open>poll\<close>: the \<open>try\<close> block under its \<open>catch\<close>, which logs and returns.\<close>

definition poll :: "string \<Rightarrow> env \<Rightarrow> poller \<Rightarrow> completion \<times> poller \<times> action list" where
  "poll handle e s =
     (case poll_try handle e s of
        (Thrown, s1, tr) \<Rightarrow> (Normal, s1, Fetch # tr @ [ConsoleError])
      | (Normal, s1, tr) \<Rightarrow> (Normal, s1, Fetch # tr))"

section \<open>The unified poller\<close>

definition BOT_HANDLE :: "string \<Rightarrow> string" where
  "BOT_HANDLE handleArg = toLowerCase handleArg"

text \<open>
  \<open>injectPrompt\<close>: the probe \<open>tmux has-session\<close>, then the literal text, the pause and the
  Enter key, all inside a \<open>try\<close> whose \<open>catch\<close> warns and returns.
\<close>

definition injectPrompt :: "(cmd \<Rightarrow> bool) \<Rightarrow> completion \<times> action list" where
  "injectPrompt ok =
     (let steps = execPromise ok [HasSession, SendKeysLiteral, Sleep, SendKeysEnter]
      in (Normal, Dispatch steps # (if rejected steps then [ConsoleWarn] else [])))"

definition bodyStr :: "message \<Rightarrow> string" where
  "bodyStr msg = toLowerCase (case body msg of None \<Rightarrow> [] | Some b \<Rightarrow> b)"

definition selfAuthored_pollRoom :: "string \<Rightarrow> message \<Rightarrow> bool" where
  "selfAuthored_pollRoom botHandle msg = str_includes (bodyStr msg) botHandle"

definition trigger_pollRoom :: "string \<Rightarrow> message \<Rightarrow> bool" where
  "trigger_pollRoom botHandle msg =
     (str_includes (bodyStr msg) ''check room'' \<or> str_includes (bodyStr msg) (CHR ''@'' # botHandle))"

definition pollRoom_try :: "string \<Rightarrow> env \<Rightarrow> poller \<Rightarrow> completion \<times> poller \<times> action list" where
  "pollRoom_try botHandle e s =
     (case fetched e of
        Threw \<Rightarrow> (Thrown, s, [])
      | Failed \<Rightarrow> (Normal, s, [ConsoleError])
      | Rows None \<Rightarrow> (Normal, s, [])
      | Rows (Some []) \<Rightarrow> (Normal, s, [])
      | Rows (Some (latestMsg # rest)) \<Rightarrow>
          if falsy (lastSeenId s) then advance (msg_id latestMsg) e s
          else if Some (msg_id latestMsg) \<noteq> lastSeenId s then
            (case advance (msg_id latestMsg) e s of
               (Thrown, s1, tr) \<Rightarrow> (Thrown, s1, tr)
             | (Normal, s1, tr) \<Rightarrow>
                 if \<not> selfAuthored_pollRoom botHandle latestMsg then
                   if trigger_pollRoom botHandle latestMsg then
                     (case injectPrompt (exec_ok e) of (c, tr') \<Rightarrow> (c, s1, tr @ tr'))
                   else (Normal, s1, tr)
                 else (Normal, s1, tr))
          else (Normal, s, []))"

definition pollRoom :: "string \<Rightarrow> env \<Rightarrow> poller \<Rightarrow> completion \<times> poller \<times> action list" where
  "pollRoom botHandle e s =
     (case pollRoom_try botHandle e s of
        (Thrown, s1, tr) \<Rightarrow> (Normal, s1, Fetch # tr @ [ConsoleError])
      | (Normal, s1, tr) \<Rightarrow> (Normal, s1, Fetch # tr))"

section \<open>The timer loop and restarts\<close>

text \<open>
  \<open>setInterval\<close> calls the cycle at every tick, with no flag that says whether an earlier
  cycle is still waiting for its fetch. A cycle therefore falls into two parts: the tick
  issues the fetch and suspends at the \<open>await\<close>; when the answer arrives the rest of the
  cycle runs. That rest reads and writes the variable and the file in one synchronous
  stretch; the \<open>await\<close>s of the dispatch come after the last access to either, so the
  whole rest is applied in one step. \<open>Tick e\<close> starts a cycle whose environment is \<open>e\<close> and
  queues it among the outstanding fetches; \<open>Resume k\<close> delivers the answer of the
  \<open>k\<close>-th outstanding fetch and runs the rest of that cycle on the state as it is then;
  \<open>Restart\<close> ends the process, dropping what is outstanding, and starts a new one, which
  reads \<open>lastSeenId\<close> back from the cache file. No exception leaves a cycle (both
  functions catch everything), so a cycle never ends the process. \<open>sched\<close> returns the
  cycles in the order in which they ran, each with its environment and its actions.
\<close>

datatype event = Tick env | Resume nat | Restart

definition restart :: "poller \<Rightarrow> poller" where
  "restart s = s\<lparr>lastSeenId := cache_file s\<rparr>"

fun sched :: "(env \<Rightarrow> poller \<Rightarrow> completion \<times> poller \<times> action list) \<Rightarrow>
              event list \<Rightarrow> env list \<Rightarrow> poller \<Rightarrow> (env \<times> action list) list" where
  "sched cycle [] out s = []"
| "sched cycle (Restart # evs) out s = sched cycle evs [] (restart s)"
| "sched cycle (Tick e # evs) out s = sched cycle evs (out @ [e]) s"
| "sched cycle (Resume k # evs) out s =
     (if k < length out then
        (case cycle (out ! k) s of
           (c, s1, tr) \<Rightarrow> (out ! k, tr) # sched cycle evs (take k out @ drop (Suc k) out) s1)
      else sched cycle evs out s)"

text \<open>The fetches that are outstanding after a list of events.\<close>

fun pending :: "event list \<Rightarrow> env list \<Rightarrow> env list" where
  "pending [] out = out"
| "pending (Restart # evs) out = pending evs []"
| "pending (Tick e # evs) out = pending evs (out @ [e])"
| "pending (Resume k # evs) out =
     pending evs (if k < length out then take k out @ drop (Suc k) out else out)"

text \<open>
  The schedules in which no cycle overlaps another: every tick is followed at once by the
  answer to its fetch. \<open>Some e\<close> is such a tick, \<open>None\<close> a restart.
\<close>

fun serial :: "env option list \<Rightarrow> event list" where
  "serial [] = []"
| "serial (None # xs) = Restart # serial xs"
| "serial (Some e # xs) = Tick e # Resume 0 # serial xs"

text \<open>The id of the message a cycle observes, if the fetch delivers one.\<close>

definition observed :: "env \<Rightarrow> string option" where
  "observed e = (case fetched e of Rows (Some (m # rest)) \<Rightarrow> Some (msg_id m) | _ \<Rightarrow> None)"

text \<open>The ids observed by the ticks of a schedule, in the order of the ticks.\<close>

fun observations :: "event list \<Rightarrow> string list" where
  "observations [] = []"
| "observations (Restart # evs) = observations evs"
| "observations (Resume k # evs) = observations evs"
| "observations (Tick e # evs) =
     (case observed e of None \<Rightarrow> observations evs | Some i \<Rightarrow> i # observations evs)"

fun is_Dispatch :: "action \<Rightarrow> bool" where
  "is_Dispatch (Dispatch steps) = True"
| "is_Dispatch a = False"

definition dispatches :: "action list \<Rightarrow> nat" where
  "dispatches tr = length (filter is_Dispatch tr)"

definition dispatchesOf :: "string \<Rightarrow> (env \<times> action list) list \<Rightarrow> nat" where
  "dispatchesOf i cycles =
     sum_list (map (\<lambda>(e, tr). if observed e = Some i then dispatches tr else 0) cycles)"

text \<open>The ids written to the cache file during a cycle, in order.\<close>

definition updates :: "action list \<Rightarrow> string list" where
  "updates tr = concat (map (\<lambda>a. case a of WriteFile i \<Rightarrow> [i] | _ \<Rightarrow> []) tr)"

text \<open>The environments of the cycles that a schedule runs, in the order in which they run.\<close>

fun resumed :: "event list \<Rightarrow> env list \<Rightarrow> env list" where
  "resumed [] out = []"
| "resumed (Restart # evs) out = resumed evs []"
| "resumed (Tick e # evs) out = resumed evs (out @ [e])"
| "resumed (Resume k # evs) out =
     (if k < length out then out ! k # resumed evs (take k out @ drop (Suc k) out)
      else resumed evs out)"

text \<open>
  Both the variable and the cache file hold the id \<open>i\<close>; for the empty id, which the
  pollers take for none, both are none or empty.
\<close>

definition settled :: "string \<Rightarrow> poller \<Rightarrow> bool" where
  "settled i s =
     ((lastSeenId s = Some i \<and> cache_file s = Some i) \<or>
      (i = [] \<and> falsy (lastSeenId s) \<and> falsy (cache_file s)))"

text \<open>
  What makes a cycle function safe to repeat: a cycle dispatches at most once; a cycle
  that observes no message changes nothing; a cycle that dispatches leaves both the variable
  and the cache file at the observed id; and once both are at an id, observing that id again
  keeps them there and dispatches nothing.
\<close>

definition idempotent_cycle ::
  "(env \<Rightarrow> poller \<Rightarrow> completion \<times> poller \<times> action list) \<Rightarrow> bool" where
  "idempotent_cycle cycle =
     (\<forall>e s. case cycle e s of (c, s1, tr) \<Rightarrow>
        dispatches tr \<le> 1 \<and>
        (observed e = None \<longrightarrow> s1 = s \<and> dispatches tr = 0) \<and>
        (\<forall>i. observed e = Some i \<longrightarrow>
           (0 < dispatches tr \<longrightarrow> settled i s1) \<and>
           (settled i s \<longrightarrow> settled i s1 \<and> dispatches tr = 0)))"

text \<open>Sample inputs for the closed instances below.\<close>

definition delivers :: "message \<Rightarrow> env" where
  "delivers m =
     \<lparr>fetched = Rows (Some [m]), write_ok = True, write_truncates = False,
      exec_ok = (\<lambda>c. True)\<rparr>"

definition msg1 :: message where
  "msg1 = \<lparr>msg_id = ''m1'', body = Some ''hello''\<rparr>"

definition msg2 :: message where
  "msg2 = \<lparr>msg_id = ''m2'', body = Some ''please Check Room''\<rparr>"

definition fresh :: poller where
  "fresh = \<lparr>lastSeenId = None, cache_file = None\<rparr>"

definition at_m1 :: poller where
  "at_m1 = \<lparr>lastSeenId = Some ''m1'', cache_file = Some ''m1''\<rparr>"

definition at_empty :: poller where
  "at_empty = \<lparr>lastSeenId = Some [], cache_file = Some []\<rparr>"

definition msg3 :: message where
  "msg3 = \<lparr>msg_id = ''m3'', body = Some ''bot: check room now''\<rparr>"

definition shouted :: message where
  "shouted = \<lparr>msg_id = ''m2'', body = Some ''BOT says CHECK ROOM''\<rparr>"

definition accented :: message where
  "accented = \<lparr>msg_id = ''m2'', body = Some (CHR 0xE9 # '' says check room'')\<rparr>"

definition nobody :: message where
  "nobody = \<lparr>msg_id = ''m2'', body = None\<rparr>"

definition unreachable :: "message \<Rightarrow> env" where
  "unreachable m =
     \<lparr>fetched = Rows (Some [m]), write_ok = True, write_truncates = False,
      exec_ok = (\<lambda>c. False)\<rparr>"

definition unwritable :: "message \<Rightarrow> env" where
  "unwritable m =
     \<lparr>fetched = Rows (Some [m]), write_ok = False, write_truncates = False,
      exec_ok = (\<lambda>c. True)\<rparr>"

text \<open>
  A schedule with overlapping cycles: two ticks, the second answered before the first,
  then a third tick.
\<close>

definition overlapped :: "event list" where
  "overlapped =
     [Tick (delivers msg2), Tick (delivers msg3), Resume 1, Resume 0,
      Tick (delivers msg3), Resume 0]"

definition overlapped_unreachable :: "event list" where
  "overlapped_unreachable =
     [Tick (delivers msg2), Tick (unreachable msg3), Resume 1, Resume 0,
      Tick (delivers msg3), Resume 0]"

definition truncating :: "message \<Rightarrow> env" where
  "truncating m =
     \<lparr>fetched = Rows (Some [m]), write_ok = False, write_truncates = True,
      exec_ok = (\<lambda>c. True)\<rparr>"

section \<open>Unfolding the definitions\<close>

lemmas sample_defs =
  delivers_def msg1_def msg2_def msg3_def shouted_def accented_def nobody_def fresh_def at_m1_def at_empty_def
  unreachable_def unwritable_def truncating_def

lemmas cycle_defs =
  poll_def poll_try_def pollRoom_def pollRoom_try_def injectPrompt_def advance_def falsy_def
  selfAuthored_poll_def trigger_poll_def selfAuthored_pollRoom_def trigger_pollRoom_def
  bodyStr_def BOT_HANDLE_def toLowerCase_def toLowerCase_char_def isUpperCase_char_def
  rejected_def observed_def

section \<open>Substring facts\<close>

lemma includes_iff_sublist: "str_includes s t \<longleftrightarrow> sublist t s"
  by (induction s) (auto simp: sublist_Cons_right)

text \<open>The folding of one code unit, by code point.\<close>

lemma toLowerCase_char_code:
  "(of_char (toLowerCase_char c) :: nat) =
     (if isUpperCase_char c then of_char c + 32 else of_char c)"
proof (cases c)
  case (Char b0 b1 b2 b3 b4 b5 b6 b7)
  then show ?thesis
    by (cases b0; cases b1; cases b2; cases b3; cases b4; cases b5; cases b6; cases b7;
        simp add: toLowerCase_char_def isUpperCase_char_def)
qed

lemma toLowerCase_char_idem: "toLowerCase_char (toLowerCase_char c) = toLowerCase_char c"
proof (cases c)
  case (Char b0 b1 b2 b3 b4 b5 b6 b7)
  then show ?thesis
    by (cases b0; cases b1; cases b2; cases b3; cases b4; cases b5; cases b6; cases b7;
        simp add: toLowerCase_char_def isUpperCase_char_def)
qed

lemma toLowerCase_idem: "toLowerCase (toLowerCase s) = toLowerCase s"
  by (simp add: toLowerCase_def toLowerCase_char_idem)

lemma includes_toLowerCase:
  "str_includes s t \<Longrightarrow> str_includes (toLowerCase s) (toLowerCase t)"
  by (simp add: includes_iff_sublist toLowerCase_def map_mono_sublist)

text \<open>
  A body that contains the unified poller's handle as it stands also contains it after
  lower-casing, because the handle is already in lower case.
\<close>

lemma includes_BOT_HANDLE:
  "str_includes b (BOT_HANDLE h) \<Longrightarrow> str_includes (toLowerCase b) (BOT_HANDLE h)"
  using includes_toLowerCase [of b "BOT_HANDLE h"] by (simp add: BOT_HANDLE_def toLowerCase_idem)


text \<open>
  Looking for a folded handle in a folded body: some run of the body matches the handle
  code unit by code unit, up to the folding.
\<close>

lemma map_eq_iff_list_all2:
  "list_all2 (\<lambda>x y. f x = f y) u h \<longleftrightarrow> map f u = map f h"
  by (induction u arbitrary: h) (auto simp: list_all2_Cons1 Cons_eq_map_conv)

lemma includes_map:
  "str_includes (map f b) (map f h) \<longleftrightarrow>
     (\<exists>ps u ss. b = ps @ u @ ss \<and> list_all2 (\<lambda>x y. f x = f y) u h)"
proof
  assume "str_includes (map f b) (map f h)"
  then obtain ps' ss' where "map f b = ps' @ (map f h @ ss')"
    by (auto simp: includes_iff_sublist sublist_def)
  then obtain ps r where b: "b = ps @ r" and r: "map f r = map f h @ ss'"
    by (metis map_eq_append_conv)
  from r obtain u ss where "r = u @ ss" and "map f u = map f h"
    by (metis map_eq_append_conv)
  with b show "\<exists>ps u ss. b = ps @ u @ ss \<and> list_all2 (\<lambda>x y. f x = f y) u h"
    by (auto simp: map_eq_iff_list_all2)
next
  assume "\<exists>ps u ss. b = ps @ u @ ss \<and> list_all2 (\<lambda>x y. f x = f y) u h"
  then obtain ps u ss where "b = ps @ u @ ss" and "map f u = map f h"
    by (auto simp: map_eq_iff_list_all2)
  then have "map f b = map f ps @ map f h @ map f ss" by simp
  then show "str_includes (map f b) (map f h)"
    unfolding includes_iff_sublist sublist_def by blast
qed

section \<open>Counting dispatches\<close>

lemma dispatches_simps [simp]:
  "dispatches [] = 0"
  "dispatches (a # tr) = (if is_Dispatch a then 1 else 0) + dispatches tr"
  "dispatches (tr @ tr') = dispatches tr + dispatches tr'"
  by (simp_all add: dispatches_def)

lemma dispatchesOf_simps [simp]:
  "dispatchesOf i [] = 0"
  "dispatchesOf i ((e, tr) # cycles) =
     (if observed e = Some i then dispatches tr else 0) + dispatchesOf i cycles"
  by (simp_all add: dispatchesOf_def)

lemma updates_simps [simp]:
  "updates [] = []"
  "updates (a # tr) = (case a of WriteFile i \<Rightarrow> [i] | _ \<Rightarrow> []) @ updates tr"
  "updates (tr @ tr') = updates tr @ updates tr'"
  by (simp_all add: updates_def)

lemma advance_cases:
  "advance i e s =
     (if write_ok e then (Normal, s\<lparr>lastSeenId := Some i, cache_file := Some i\<rparr>, [WriteFile i])
      else (Thrown,
            s\<lparr>lastSeenId := Some i,
              cache_file := (if write_truncates e then None else cache_file s)\<rparr>,
            [WriteFileThrew]))"
  by (simp add: advance_def)

section \<open>The shape of a cycle\<close>

lemma poll_Normal: "fst (poll handle e s) = Normal"
  by (simp add: poll_def split: prod.splits completion.splits)

lemma pollRoom_Normal: "fst (pollRoom botHandle e s) = Normal"
  by (simp add: pollRoom_def split: prod.splits completion.splits)

text \<open>Which cycles run does not depend on what the cycles do.\<close>

lemma sched_resumed: "map fst (sched cycle evs out s) = resumed evs out"
proof (induction evs arbitrary: out s)
  case Nil
  show ?case by simp
next
  case (Cons ev evs)
  show ?case
    by (cases ev) (simp_all add: Cons.IH split: prod.splits)
qed

lemma observed_cases: "observed e = None \<or> (\<exists>m rest. fetched e = Rows (Some (m # rest)))"
  by (simp add: observed_def split: fetched.splits option.splits list.splits)

text \<open>The \<open>try\<close> blocks, branch by branch.\<close>

lemma poll_try_unobserved:
  "observed e = None \<Longrightarrow>
   poll_try handle e s =
     (case fetched e of
        Threw \<Rightarrow> (Thrown, s, [])
      | Failed \<Rightarrow> (Normal, s, [ConsoleError])
      | Rows d \<Rightarrow> (Normal, s, []))"
  by (simp add: poll_try_def observed_def split: fetched.splits option.splits list.splits)

lemma poll_try_observed:
  "fetched e = Rows (Some (m # rest)) \<Longrightarrow>
   poll_try handle e s =
     (if falsy (lastSeenId s) then advance (msg_id m) e s
      else if Some (msg_id m) = lastSeenId s then (Normal, s, [])
      else case body m of
             None \<Rightarrow> (Thrown, s, [])
           | Some b \<Rightarrow>
               if str_includes b handle then (Normal, s, [])
               else if \<not> write_ok e then
                 (Thrown,
                  s\<lparr>lastSeenId := Some (msg_id m),
                    cache_file := (if write_truncates e then None else cache_file s)\<rparr>,
                  [WriteFileThrew])
               else if trigger_poll handle b then
                 (if rejected (execPromise (exec_ok e) [SendKeysLiteral, Sleep, SendKeysEnter])
                  then Thrown else Normal,
                  s\<lparr>lastSeenId := Some (msg_id m), cache_file := Some (msg_id m)\<rparr>,
                  [WriteFile (msg_id m),
                   Dispatch (execPromise (exec_ok e) [SendKeysLiteral, Sleep, SendKeysEnter])])
               else (Normal, s\<lparr>lastSeenId := Some (msg_id m), cache_file := Some (msg_id m)\<rparr>,
                     [WriteFile (msg_id m)]))"
  by (simp add: poll_try_def selfAuthored_poll_def advance_cases Let_def split: option.splits)

lemma pollRoom_try_unobserved:
  "observed e = None \<Longrightarrow>
   pollRoom_try b e s =
     (case fetched e of
        Threw \<Rightarrow> (Thrown, s, [])
      | Failed \<Rightarrow> (Normal, s, [ConsoleError])
      | Rows d \<Rightarrow> (Normal, s, []))"
  by (simp add: pollRoom_try_def observed_def split: fetched.splits option.splits list.splits)

lemma pollRoom_try_observed:
  "fetched e = Rows (Some (m # rest)) \<Longrightarrow>
   pollRoom_try b e s =
     (if falsy (lastSeenId s) then advance (msg_id m) e s
      else if Some (msg_id m) = lastSeenId s then (Normal, s, [])
      else if \<not> write_ok e then
        (Thrown,
         s\<lparr>lastSeenId := Some (msg_id m),
           cache_file := (if write_truncates e then None else cache_file s)\<rparr>,
         [WriteFileThrew])
      else if \<not> selfAuthored_pollRoom b m \<and> trigger_pollRoom b m then
        (Normal, s\<lparr>lastSeenId := Some (msg_id m), cache_file := Some (msg_id m)\<rparr>,
         [WriteFile (msg_id m),
          Dispatch (execPromise (exec_ok e) [HasSession, SendKeysLiteral, Sleep, SendKeysEnter])] @
         (if rejected (execPromise (exec_ok e) [HasSession, SendKeysLiteral, Sleep, SendKeysEnter])
          then [ConsoleWarn] else []))
      else (Normal, s\<lparr>lastSeenId := Some (msg_id m), cache_file := Some (msg_id m)\<rparr>,
            [WriteFile (msg_id m)]))"
  by (simp add: pollRoom_try_def injectPrompt_def advance_cases Let_def)

lemma poll_write_threw:
  assumes "WriteFileThrew \<in> set (snd (snd (poll handle e s)))"
  shows "\<exists>m rest. fetched e = Rows (Some (m # rest)) \<and> \<not> write_ok e \<and>
           poll handle e s =
             (Normal,
              s\<lparr>lastSeenId := Some (msg_id m),
                cache_file := (if write_truncates e then None else cache_file s)\<rparr>,
              [Fetch, WriteFileThrew, ConsoleError])"
proof -
  from observed_cases [of e] show ?thesis
  proof
    assume "observed e = None"
    with assms show ?thesis
      by (auto simp: poll_def poll_try_unobserved split: fetched.splits)
  next
    assume "\<exists>m rest. fetched e = Rows (Some (m # rest))"
    then obtain m rest where f: "fetched e = Rows (Some (m # rest))" by blast
    with assms show ?thesis
      by (auto simp: poll_def poll_try_observed [OF f] advance_cases
               simp del: execPromise.simps split: if_splits option.splits)
  qed
qed

lemma pollRoom_write_threw:
  assumes "WriteFileThrew \<in> set (snd (snd (pollRoom botHandle e s)))"
  shows "\<exists>m rest. fetched e = Rows (Some (m # rest)) \<and> \<not> write_ok e \<and>
           pollRoom botHandle e s =
             (Normal,
              s\<lparr>lastSeenId := Some (msg_id m),
                cache_file := (if write_truncates e then None else cache_file s)\<rparr>,
              [Fetch, WriteFileThrew, ConsoleError])"
proof -
  from observed_cases [of e] show ?thesis
  proof
    assume "observed e = None"
    with assms show ?thesis
      by (auto simp: pollRoom_def pollRoom_try_unobserved split: fetched.splits)
  next
    assume "\<exists>m rest. fetched e = Rows (Some (m # rest))"
    then obtain m rest where f: "fetched e = Rows (Some (m # rest))" by blast
    with assms show ?thesis
      by (auto simp: pollRoom_def pollRoom_try_observed [OF f] advance_cases
               simp del: execPromise.simps split: if_splits)
  qed
qed

text \<open>A cycle that dispatches has fetched a message, written its id, and then dispatched.\<close>

lemma poll_dispatch_shape:
  assumes "poll handle e s = (c, s1, tr)" and "Dispatch steps \<in> set tr"
  shows "\<exists>m rest. fetched e = Rows (Some (m # rest)) \<and> cache_file s1 = Some (msg_id m) \<and>
           lastSeenId s1 = Some (msg_id m) \<and>
           steps = execPromise (exec_ok e) [SendKeysLiteral, Sleep, SendKeysEnter] \<and>
           poll_try handle e s =
             (if rejected steps then Thrown else Normal, s1,
              [WriteFile (msg_id m), Dispatch steps]) \<and>
           tr = [Fetch, WriteFile (msg_id m), Dispatch steps] @
                  (if rejected steps then [ConsoleError] else [])"
proof -
  from observed_cases [of e] show ?thesis
  proof
    assume "observed e = None"
    with assms show ?thesis
      by (auto simp: poll_def poll_try_unobserved split: fetched.splits)
  next
    assume "\<exists>m rest. fetched e = Rows (Some (m # rest))"
    then obtain m rest where f: "fetched e = Rows (Some (m # rest))" by blast
    with assms show ?thesis
      by (auto simp: poll_def poll_try_observed [OF f] advance_cases
               simp del: execPromise.simps split: if_splits option.splits)
  qed
qed

lemma pollRoom_dispatch_shape:
  assumes "pollRoom b e s = (c, s1, tr)" and "Dispatch steps \<in> set tr"
  shows "\<exists>m rest. fetched e = Rows (Some (m # rest)) \<and> cache_file s1 = Some (msg_id m) \<and>
           lastSeenId s1 = Some (msg_id m) \<and>
           steps = execPromise (exec_ok e) [HasSession, SendKeysLiteral, Sleep, SendKeysEnter] \<and>
           pollRoom_try b e s =
             (Normal, s1, [WriteFile (msg_id m), Dispatch steps] @
                            (if rejected steps then [ConsoleWarn] else [])) \<and>
           tr = [Fetch, WriteFile (msg_id m), Dispatch steps] @
                  (if rejected steps then [ConsoleWarn] else [])"
proof -
  from observed_cases [of e] show ?thesis
  proof
    assume "observed e = None"
    with assms show ?thesis
      by (auto simp: pollRoom_def pollRoom_try_unobserved split: fetched.splits)
  next
    assume "\<exists>m rest. fetched e = Rows (Some (m # rest))"
    then obtain m rest where f: "fetched e = Rows (Some (m # rest))" by blast
    with assms show ?thesis
      by (auto simp: pollRoom_def pollRoom_try_observed [OF f] advance_cases
               simp del: execPromise.simps split: if_splits)
  qed
qed

lemma before_dispatch:
  assumes "[Fetch, WriteFile i, Dispatch st] @ (if r then [x] else []) = pre @ Dispatch steps # post"
    and "\<not> is_Dispatch x"
  shows "pre = [Fetch, WriteFile i]"
  using assms by (auto simp: append_eq_Cons_conv Cons_eq_append_conv split: if_splits)

section \<open>Idempotence of the loop\<close>

lemma poll_idempotent: "idempotent_cycle (poll h)"
  unfolding idempotent_cycle_def
proof (intro allI)
  fix e s
  from observed_cases [of e]
  show "case poll h e s of (c, s1, tr) \<Rightarrow>
          dispatches tr \<le> 1 \<and>
          (observed e = None \<longrightarrow> s1 = s \<and> dispatches tr = 0) \<and>
          (\<forall>i. observed e = Some i \<longrightarrow>
             (0 < dispatches tr \<longrightarrow> settled i s1) \<and>
             (settled i s \<longrightarrow> settled i s1 \<and> dispatches tr = 0))"
  proof
    assume "observed e = None"
    then show ?thesis
      by (simp add: poll_def poll_try_unobserved split: fetched.splits)
  next
    assume "\<exists>m rest. fetched e = Rows (Some (m # rest))"
    then obtain m rest where f: "fetched e = Rows (Some (m # rest))" by blast
    then have o: "observed e = Some (msg_id m)" by (simp add: observed_def)
    show ?thesis
      by (auto simp: poll_def poll_try_observed [OF f] o advance_cases settled_def falsy_def
               simp del: execPromise.simps split: option.splits)
  qed
qed

lemma pollRoom_idempotent: "idempotent_cycle (pollRoom b)"
  unfolding idempotent_cycle_def
proof (intro allI)
  fix e s
  from observed_cases [of e]
  show "case pollRoom b e s of (c, s1, tr) \<Rightarrow>
          dispatches tr \<le> 1 \<and>
          (observed e = None \<longrightarrow> s1 = s \<and> dispatches tr = 0) \<and>
          (\<forall>i. observed e = Some i \<longrightarrow>
             (0 < dispatches tr \<longrightarrow> settled i s1) \<and>
             (settled i s \<longrightarrow> settled i s1 \<and> dispatches tr = 0))"
  proof
    assume "observed e = None"
    then show ?thesis
      by (simp add: pollRoom_def pollRoom_try_unobserved split: fetched.splits)
  next
    assume "\<exists>m rest. fetched e = Rows (Some (m # rest))"
    then obtain m rest where f: "fetched e = Rows (Some (m # rest))" by blast
    then have o: "observed e = Some (msg_id m)" by (simp add: observed_def)
    show ?thesis
      by (auto simp: pollRoom_def pollRoom_try_observed [OF f] o advance_cases settled_def
                     falsy_def
               simp del: execPromise.simps split: option.splits)
  qed
qed

lemma distinct_remdups_adj_tl: "distinct (remdups_adj (x # xs)) \<Longrightarrow> distinct (remdups_adj xs)"
  by (cases xs) (auto split: if_splits)

lemma unobserved_never_dispatched:
  "i \<notin> set (observations (serial xs)) \<Longrightarrow> dispatchesOf i (sched cycle (serial xs) [] s) = 0"
proof (induction xs arbitrary: s)
  case Nil
  show ?case by simp
next
  case (Cons x xs)
  show ?case
  proof (cases x)
    case None
    with Cons show ?thesis by simp
  next
    case (Some e)
    with Cons.prems have rest: "i \<notin> set (observations (serial xs))"
      and here: "observed e \<noteq> Some i"
      by (auto split: option.splits)
    show ?thesis
      using Some here Cons.IH [OF rest] by (simp split: prod.splits)
  qed
qed

lemma settled_restart: "cache_file s = Some i \<Longrightarrow> settled i (restart s)"
  by (simp add: settled_def restart_def)

lemma settled_after_restart: "settled i s \<Longrightarrow> settled i (restart s)"
  by (auto simp: settled_def restart_def)

lemma settled_never_dispatched:
  assumes cyc: "idempotent_cycle cycle"
  shows "settled i s \<Longrightarrow> distinct (remdups_adj (i # observations (serial xs))) \<Longrightarrow>
         dispatchesOf i (sched cycle (serial xs) [] s) = 0"
proof (induction xs arbitrary: s)
  case Nil
  show ?case by simp
next
  case (Cons x xs)
  show ?case
  proof (cases x)
    case None
    have "settled i (restart s)"
      using Cons.prems(1) by (rule settled_after_restart)
    with Cons None show ?thesis by simp
  next
    case (Some e)
    obtain c s1 tr where r: "cycle e s = (c, s1, tr)" by (cases "cycle e s")
    show ?thesis
    proof (cases "observed e")
      case None
      from cyc r None have same: "s1 = s"
        unfolding idempotent_cycle_def by (metis (mono_tags, lifting) case_prod_conv)
      from Cons.prems(2) Some None
      have d: "distinct (remdups_adj (i # observations (serial xs)))" by simp
      show ?thesis
        using Some None r same Cons.IH [OF Cons.prems(1) d] by simp
    next
      case obs: (Some j)
      show ?thesis
      proof (cases "j = i")
        case True
        from cyc r obs True Cons.prems(1) have st: "settled i s1" and no: "dispatches tr = 0"
          unfolding idempotent_cycle_def by (metis (mono_tags, lifting) case_prod_conv)+
        from Cons.prems(2) Some obs True
        have d: "distinct (remdups_adj (i # observations (serial xs)))" by simp
        show ?thesis
          using Some obs r no Cons.IH [OF st d] by simp
      next
        case False
        from Cons.prems(2) Some obs False have "i \<notin> set (observations (serial (x # xs)))"
          by simp
        then show ?thesis by (rule unobserved_never_dispatched)
      qed
    qed
  qed
qed

lemma at_most_one_dispatch:
  assumes cyc: "idempotent_cycle cycle"
  shows "distinct (remdups_adj (observations (serial xs))) \<Longrightarrow>
         dispatchesOf i (sched cycle (serial xs) [] s) \<le> 1"
proof (induction xs arbitrary: s)
  case Nil
  show ?case by simp
next
  case (Cons x xs)
  show ?case
  proof (cases x)
    case None
    with Cons show ?thesis by simp
  next
    case (Some e)
    have d: "distinct (remdups_adj (observations (serial xs)))"
      using Cons.prems Some by (auto split: option.splits dest: distinct_remdups_adj_tl)
    obtain c s1 tr where r: "cycle e s = (c, s1, tr)" by (cases "cycle e s")
    show ?thesis
    proof (cases "observed e = Some i \<and> 0 < dispatches tr")
      case False
      then have "(if observed e = Some i then dispatches tr else 0) = 0" by auto
      with Some r Cons.IH [OF d, of s1] show ?thesis by simp
    next
      case fired: True
      from cyc r fired have st: "settled i s1" and one: "dispatches tr \<le> 1"
        unfolding idempotent_cycle_def by (metis (mono_tags, lifting) case_prod_conv)+
      from Cons.prems Some fired
      have "distinct (remdups_adj (i # observations (serial xs)))" by simp
      from settled_never_dispatched [OF cyc st this]
      have "dispatchesOf i (sched cycle (serial xs) [] s1) = 0" .
      with Some r one fired show ?thesis by simp
    qed
  qed
qed

section \<open>Claim C1: idempotence across polls and restarts\<close>

text \<open>
  When cycles overlap, an id can be dispatched twice. Two ticks observe \<open>m2\<close> and then
  \<open>m3\<close>; the answer to the second fetch arrives first, so \<open>m3\<close> is dispatched and the
  watermark set to \<open>m3\<close>; then the older answer arrives, \<open>m2\<close> differs from the watermark,
  is dispatched and moves the watermark back to \<open>m2\<close>; the next tick observes \<open>m3\<close>
  again and dispatches it a second time.
\<close>

theorem overlapping_cycles_dispatch_twice:
  "observations overlapped = [''m2'', ''m3'', ''m3''] \<and>
   distinct (remdups_adj (observations overlapped)) \<and>
   dispatchesOf ''m3'' (sched (poll ''claudemm'') overlapped [] at_m1) = 2 \<and>
   dispatchesOf ''m3'' (sched (pollRoom (BOT_HANDLE ''claudemm'')) overlapped [] at_m1) = 2"
  by (simp add: overlapped_def sample_defs cycle_defs)

text \<open>
  Claim C1, as amended. The room is append-only and a cycle fetches its newest message, so
  the ids observed by successive ticks are a sequence of pairwise-distinct ids in which each
  id may be repeated any number of times in a row:
  \<open>distinct (remdups_adj (observations evs))\<close>. For every such sequence of ticks and
  restarts in which no cycle overlaps another (each fetch is answered, and its cycle run,
  before the next tick or restart), from any starting state, each message id is dispatched
  at most once over all the cycles that observe it, in the minimal and in the unified
  poller. In particular, when the id stored in the cache file is \<open>i\<close> (and the
  observations continue that sequence), no cycle after a restart dispatches \<open>i\<close>.
\<close>

theorem poll_loop_at_most_one_dispatch:
  assumes "distinct (remdups_adj (observations (serial xs)))"
  shows "dispatchesOf i (sched (poll handle) (serial xs) [] s) \<le> 1 \<and>
         dispatchesOf i (sched (pollRoom botHandle) (serial xs) [] s) \<le> 1 \<and>
         (cache_file s = Some i \<and> distinct (remdups_adj (i # observations (serial xs))) \<longrightarrow>
            dispatchesOf i (sched (poll handle) (serial (None # xs)) [] s) = 0 \<and>
            dispatchesOf i (sched (pollRoom botHandle) (serial (None # xs)) [] s) = 0)"
proof (intro conjI impI)
  show "dispatchesOf i (sched (poll handle) (serial xs) [] s) \<le> 1"
    using assms by (rule at_most_one_dispatch [OF poll_idempotent])
  show "dispatchesOf i (sched (pollRoom botHandle) (serial xs) [] s) \<le> 1"
    using assms by (rule at_most_one_dispatch [OF pollRoom_idempotent])
next
  assume a: "cache_file s = Some i \<and> distinct (remdups_adj (i # observations (serial xs)))"
  then have st: "settled i (restart s)" by (simp add: settled_restart)
  from a have d: "distinct (remdups_adj (i # observations (serial xs)))" by simp
  show "dispatchesOf i (sched (poll handle) (serial (None # xs)) [] s) = 0"
    using settled_never_dispatched [OF poll_idempotent st d] by simp
  show "dispatchesOf i (sched (pollRoom botHandle) (serial (None # xs)) [] s) = 0"
    using settled_never_dispatched [OF pollRoom_idempotent st d] by simp
qed

theorem poll_loop_at_most_one_dispatch_witness:
  "distinct (remdups_adj (observations (serial [Some (delivers msg1), Some (delivers msg2)]))) \<and>
   cache_file at_m1 = Some ''m1'' \<and>
   distinct (remdups_adj
     (''m1'' # observations (serial [Some (delivers msg1), Some (delivers msg2)]))) \<and>
   dispatchesOf ''m1'' (sched (poll ''claudemm'')
      (serial (None # [Some (delivers msg1), Some (delivers msg2)])) [] at_m1) = 0 \<and>
   dispatchesOf ''m1'' (sched (pollRoom ''claudemm'')
      (serial (None # [Some (delivers msg1), Some (delivers msg2)])) [] at_m1) = 0 \<and>
   dispatchesOf ''m2'' (sched (poll ''claudemm'')
      (serial (None # [Some (delivers msg1), Some (delivers msg2)])) [] at_m1) = 1 \<and>
   dispatchesOf ''m2'' (sched (pollRoom ''claudemm'')
      (serial (None # [Some (delivers msg1), Some (delivers msg2)])) [] at_m1) = 1"
proof -
  have d: "distinct (remdups_adj
             (observations (serial [Some (delivers msg1), Some (delivers msg2)])))"
    by (simp add: sample_defs observed_def)
  have c: "cache_file at_m1 = Some ''m1''"
    by (simp add: sample_defs)
  have d1: "distinct (remdups_adj
              (''m1'' # observations (serial [Some (delivers msg1), Some (delivers msg2)])))"
    by (simp add: sample_defs observed_def)
  have once: "dispatchesOf ''m2'' (sched (poll ''claudemm'')
      (serial (None # [Some (delivers msg1), Some (delivers msg2)])) [] at_m1) = 1"
    "dispatchesOf ''m2'' (sched (pollRoom ''claudemm'')
      (serial (None # [Some (delivers msg1), Some (delivers msg2)])) [] at_m1) = 1"
    by (simp_all add: sample_defs cycle_defs restart_def)
  from poll_loop_at_most_one_dispatch [OF d, of "''m1''" "''claudemm''" at_m1 "''claudemm''"]
    c d1 d once
  show ?thesis by blast
qed

section \<open>Claim C7: the first observation\<close>

text \<open>
  Claim C7. When the watermark is none, the first message observed never dispatches,
  whatever its body, and the watermark advances to that message's id: the variable always,
  the cache file whenever the write succeeds. This holds in both pollers.
\<close>

theorem first_observation_never_dispatches:
  assumes "lastSeenId s = None" and "fetched e = Rows (Some (m # rest))"
  shows "dispatches (snd (snd (poll handle e s))) = 0 \<and>
         lastSeenId (fst (snd (poll handle e s))) = Some (msg_id m) \<and>
         (write_ok e \<longrightarrow> cache_file (fst (snd (poll handle e s))) = Some (msg_id m)) \<and>
         dispatches (snd (snd (pollRoom botHandle e s))) = 0 \<and>
         lastSeenId (fst (snd (pollRoom botHandle e s))) = Some (msg_id m) \<and>
         (write_ok e \<longrightarrow> cache_file (fst (snd (pollRoom botHandle e s))) = Some (msg_id m))"
  using assms
  by (simp add: poll_def poll_try_def pollRoom_def pollRoom_try_def falsy_def advance_cases)

theorem first_observation_never_dispatches_witness:
  "lastSeenId fresh = None \<and> fetched (delivers msg2) = Rows (Some (msg2 # [])) \<and>
   write_ok (delivers msg2) \<and>
   dispatches (snd (snd (poll ''claudemm'' (delivers msg2) fresh))) = 0 \<and>
   lastSeenId (fst (snd (poll ''claudemm'' (delivers msg2) fresh))) = Some (msg_id msg2) \<and>
   cache_file (fst (snd (poll ''claudemm'' (delivers msg2) fresh))) = Some (msg_id msg2) \<and>
   dispatches (snd (snd (pollRoom ''claudemm'' (delivers msg2) fresh))) = 0 \<and>
   lastSeenId (fst (snd (pollRoom ''claudemm'' (delivers msg2) fresh))) = Some (msg_id msg2) \<and>
   cache_file (fst (snd (pollRoom ''claudemm'' (delivers msg2) fresh))) = Some (msg_id msg2)"
proof -
  have h1: "lastSeenId fresh = None" by (simp add: sample_defs)
  have h2: "fetched (delivers msg2) = Rows (Some (msg2 # []))" by (simp add: sample_defs)
  have h3: "write_ok (delivers msg2)" by (simp add: sample_defs)
  from first_observation_never_dispatches [OF h1 h2, of "''claudemm''" "''claudemm''"] h1 h2 h3
  show ?thesis by blast
qed

section \<open>Claim C6: the write comes before the dispatch\<close>

text \<open>
  Claim C6. In every cycle of either poller, whatever the environment does, a dispatch is
  preceded in that cycle by exactly the fetch and the successful write of the observed
  message's id, and the cache file holds that id: no dispatch ever precedes the write of
  the advanced watermark.
\<close>

theorem watermark_written_before_dispatch:
  "(snd (snd (poll handle e s)) = pre @ Dispatch steps # post \<longrightarrow>
      (\<exists>i. observed e = Some i \<and> pre = [Fetch, WriteFile i] \<and>
         cache_file (fst (snd (poll handle e s))) = Some i)) \<and>
   (snd (snd (pollRoom botHandle e s)) = pre' @ Dispatch steps' # post' \<longrightarrow>
      (\<exists>i. observed e = Some i \<and> pre' = [Fetch, WriteFile i] \<and>
         cache_file (fst (snd (pollRoom botHandle e s))) = Some i))"
proof (intro conjI impI)
  assume a: "snd (snd (poll handle e s)) = pre @ Dispatch steps # post"
  obtain c s1 tr where r: "poll handle e s = (c, s1, tr)" by (cases "poll handle e s")
  with a have "Dispatch steps \<in> set tr" by simp
  from poll_dispatch_shape [OF r this] obtain m rest where
    f: "fetched e = Rows (Some (m # rest))" and cf: "cache_file s1 = Some (msg_id m)" and
    tr: "tr = [Fetch, WriteFile (msg_id m), Dispatch steps] @
                (if rejected steps then [ConsoleError] else [])"
    by blast
  from a r tr have "pre = [Fetch, WriteFile (msg_id m)]"
    using before_dispatch [of "msg_id m" steps "rejected steps" ConsoleError pre steps post]
    by simp
  with f cf r show "\<exists>i. observed e = Some i \<and> pre = [Fetch, WriteFile i] \<and>
      cache_file (fst (snd (poll handle e s))) = Some i"
    by (simp add: observed_def)
next
  assume a: "snd (snd (pollRoom botHandle e s)) = pre' @ Dispatch steps' # post'"
  obtain c s1 tr where r: "pollRoom botHandle e s = (c, s1, tr)"
    by (cases "pollRoom botHandle e s")
  with a have "Dispatch steps' \<in> set tr" by simp
  from pollRoom_dispatch_shape [OF r this] obtain m rest where
    f: "fetched e = Rows (Some (m # rest))" and cf: "cache_file s1 = Some (msg_id m)" and
    tr: "tr = [Fetch, WriteFile (msg_id m), Dispatch steps'] @
                (if rejected steps' then [ConsoleWarn] else [])"
    by blast
  from a r tr have "pre' = [Fetch, WriteFile (msg_id m)]"
    using before_dispatch [of "msg_id m" steps' "rejected steps'" ConsoleWarn pre' steps' post']
    by simp
  with f cf r show "\<exists>i. observed e = Some i \<and> pre' = [Fetch, WriteFile i] \<and>
      cache_file (fst (snd (pollRoom botHandle e s))) = Some i"
    by (simp add: observed_def)
qed

theorem watermark_written_before_dispatch_witness:
  "snd (snd (poll ''claudemm'' (delivers msg2) at_m1)) =
     [Fetch, WriteFile ''m2''] @
     Dispatch [(SendKeysLiteral, True), (Sleep, True), (SendKeysEnter, True)] # [] \<and>
   snd (snd (pollRoom ''claudemm'' (delivers msg2) at_m1)) =
     [Fetch, WriteFile ''m2''] @
     Dispatch [(HasSession, True), (SendKeysLiteral, True), (Sleep, True), (SendKeysEnter, True)]
       # [] \<and>
   (\<exists>i. observed (delivers msg2) = Some i \<and> [Fetch, WriteFile ''m2''] = [Fetch, WriteFile i] \<and>
      cache_file (fst (snd (poll ''claudemm'' (delivers msg2) at_m1))) = Some i) \<and>
   (\<exists>i. observed (delivers msg2) = Some i \<and> [Fetch, WriteFile ''m2''] = [Fetch, WriteFile i] \<and>
      cache_file (fst (snd (pollRoom ''claudemm'' (delivers msg2) at_m1))) = Some i)"
proof -
  have a1: "snd (snd (poll ''claudemm'' (delivers msg2) at_m1)) =
     [Fetch, WriteFile ''m2''] @
     Dispatch [(SendKeysLiteral, True), (Sleep, True), (SendKeysEnter, True)] # []"
    by (simp add: sample_defs cycle_defs)
  have a2: "snd (snd (pollRoom ''claudemm'' (delivers msg2) at_m1)) =
     [Fetch, WriteFile ''m2''] @
     Dispatch [(HasSession, True), (SendKeysLiteral, True), (Sleep, True), (SendKeysEnter, True)]
       # []"
    by (simp add: sample_defs cycle_defs)
  from watermark_written_before_dispatch
    [where handle = "''claudemm''" and botHandle = "''claudemm''" and e = "delivers msg2"
       and s = at_m1 and pre = "[Fetch, WriteFile ''m2'']" and pre' = "[Fetch, WriteFile ''m2'']"
       and steps = "[(SendKeysLiteral, True), (Sleep, True), (SendKeysEnter, True)]"
       and steps' = "[(HasSession, True), (SendKeysLiteral, True), (Sleep, True),
                      (SendKeysEnter, True)]"
       and post = "[]" and post' = "[]"]
    a1 a2
  show ?thesis by blast
qed

section \<open>Claim C2: a trigger dispatches once\<close>




section \<open>Claim C3: self-authored messages\<close>

text \<open>
  The minimal poller tests the body in the same condition that guards the watermark
  update, so a new message that contains the handle leaves the watermark where it was.
\<close>

theorem self_authored_keeps_watermark_in_poll:
  "fetched (delivers msg3) = Rows (Some [msg3]) \<and>
   \<not> falsy (lastSeenId at_m1) \<and> Some (msg_id msg3) \<noteq> lastSeenId at_m1 \<and>
   body msg3 = Some ''bot: check room now'' \<and> str_includes ''bot: check room now'' ''bot'' \<and>
   msg_id msg3 = ''m3'' \<and>
   lastSeenId (fst (snd (poll ''bot'' (delivers msg3) at_m1))) = Some ''m1'' \<and>
   cache_file (fst (snd (poll ''bot'' (delivers msg3) at_m1))) = Some ''m1''"
  by (simp add: sample_defs cycle_defs)

text \<open>
  Claim C3, as amended. In the unified poller, for every cycle that observes a new message
  (id different from a watermark that is not none) whose body contains the handle in any
  letter casing, no dispatch occurs and the watermark advances to that message's id (the
  variable always, the cache file when the write succeeds). In the minimal poller, for
  every cycle that observes a new message whose body contains the handle, no dispatch
  occurs and the watermark is left unchanged (unless it is the empty string, which the
  poller takes for none).
\<close>

theorem self_authored_never_dispatches:
  assumes "fetched e = Rows (Some (m # rest))"
    and "lastSeenId s \<noteq> None" and "Some (msg_id m) \<noteq> lastSeenId s"
    and "body m = Some b"
  shows "(str_includes (toLowerCase b) (BOT_HANDLE handleArg) \<longrightarrow>
            dispatches (snd (snd (pollRoom (BOT_HANDLE handleArg) e s))) = 0 \<and>
            lastSeenId (fst (snd (pollRoom (BOT_HANDLE handleArg) e s))) = Some (msg_id m) \<and>
            (write_ok e \<longrightarrow>
               cache_file (fst (snd (pollRoom (BOT_HANDLE handleArg) e s))) = Some (msg_id m) \<and>
               updates (snd (snd (pollRoom (BOT_HANDLE handleArg) e s))) = [msg_id m])) \<and>
         (str_includes b handle \<longrightarrow>
            dispatches (snd (snd (poll handle e s))) = 0 \<and>
            (lastSeenId s \<noteq> Some [] \<longrightarrow> poll handle e s = (Normal, s, [Fetch])))"
proof (cases "falsy (lastSeenId s)")
  case True
  with assms show ?thesis
    by (simp add: poll_def poll_try_def pollRoom_def pollRoom_try_def advance_cases falsy_def
          split: option.splits)
next
  case False
  with assms show ?thesis
    by (simp add: poll_def poll_try_def selfAuthored_poll_def pollRoom_def pollRoom_try_def
          selfAuthored_pollRoom_def bodyStr_def advance_cases)
qed

theorem self_authored_never_dispatches_witness:
  "fetched (delivers msg3) = Rows (Some (msg3 # [])) \<and>
   lastSeenId at_m1 \<noteq> None \<and> Some (msg_id msg3) \<noteq> lastSeenId at_m1 \<and>
   body msg3 = Some ''bot: check room now'' \<and>
   str_includes (toLowerCase ''bot: check room now'') (BOT_HANDLE ''Bot'') \<and>
   write_ok (delivers msg3) \<and> str_includes ''bot: check room now'' ''bot'' \<and>
   lastSeenId at_m1 \<noteq> Some [] \<and>
   dispatches (snd (snd (pollRoom (BOT_HANDLE ''Bot'') (delivers msg3) at_m1))) = 0 \<and>
   lastSeenId (fst (snd (pollRoom (BOT_HANDLE ''Bot'') (delivers msg3) at_m1))) =
     Some (msg_id msg3) \<and>
   cache_file (fst (snd (pollRoom (BOT_HANDLE ''Bot'') (delivers msg3) at_m1))) =
     Some (msg_id msg3) \<and>
   poll ''bot'' (delivers msg3) at_m1 = (Normal, at_m1, [Fetch])"
proof -
  have h1: "fetched (delivers msg3) = Rows (Some (msg3 # []))" by (simp add: sample_defs)
  have h2: "lastSeenId at_m1 \<noteq> None" by (simp add: sample_defs)
  have h3: "Some (msg_id msg3) \<noteq> lastSeenId at_m1" by (simp add: sample_defs)
  have h4: "body msg3 = Some ''bot: check room now''" by (simp add: sample_defs)
  have a1: "str_includes (toLowerCase ''bot: check room now'') (BOT_HANDLE ''Bot'')"
    by (simp add: BOT_HANDLE_def toLowerCase_def toLowerCase_char_def
          isUpperCase_char_def)
  have a2: "write_ok (delivers msg3)" by (simp add: sample_defs)
  have a3: "str_includes ''bot: check room now'' ''bot''" by simp
  have a4: "lastSeenId at_m1 \<noteq> Some []" by (simp add: sample_defs)
  from self_authored_never_dispatches [OF h1 h2 h3 h4, of "''Bot''" "''bot''"]
    h1 h2 h3 h4 a1 a2 a3 a4
  show ?thesis by blast
qed

section \<open>Claim C4: a failing write\<close>

text \<open>
  A write that throws does not stop the loop: the cycle's \<open>catch\<close> logs the error, and
  the next tick runs a cycle as usual, which here dispatches the next message.
\<close>

theorem loop_continues_after_write_failure:
  "map snd (sched (poll ''claudemm'')
      (serial [Some (unwritable msg2), Some (delivers msg3)]) [] at_m1) =
     [[Fetch, WriteFileThrew, ConsoleError],
      [Fetch, WriteFile ''m3'',
       Dispatch [(SendKeysLiteral, True), (Sleep, True), (SendKeysEnter, True)]]] \<and>
   map snd (sched (pollRoom ''claudemm'')
      (serial [Some (unwritable msg2), Some (delivers msg3)]) [] at_m1) =
     [[Fetch, WriteFileThrew, ConsoleError],
      [Fetch, WriteFile ''m3'',
       Dispatch [(HasSession, True), (SendKeysLiteral, True), (Sleep, True),
                 (SendKeysEnter, True)]]]"
  by (simp add: sample_defs cycle_defs)

text \<open>
  Claim C4, as amended. No failure halts the loop: every cycle of either poller returns
  normally, whatever the fetch, the write and the shell commands do, and in every schedule
  each cycle whose fetch is answered runs, whatever the cycles before it did. When the
  write of the watermark throws, the cycle's generic \<open>catch\<close> logs the error and the cycle
  ends without a dispatch, with the variable already advanced to the observed id; the cache
  file is left as it was when the write failed before opening it, and is left unreadable,
  to be read back as no watermark, when the write failed after opening it.
\<close>

theorem persistence_failure_is_caught:
  "fst (poll handle e s) = Normal \<and> fst (pollRoom botHandle e s) = Normal \<and>
   map fst (sched (poll handle) evs out s) = resumed evs out \<and>
   map fst (sched (pollRoom botHandle) evs out s) = resumed evs out \<and>
   (WriteFileThrew \<in> set (snd (snd (poll handle e s))) \<longrightarrow>
      (\<exists>i. observed e = Some i \<and> \<not> write_ok e \<and>
         poll handle e s =
           (Normal,
            s\<lparr>lastSeenId := Some i,
              cache_file := (if write_truncates e then None else cache_file s)\<rparr>,
            [Fetch, WriteFileThrew, ConsoleError]))) \<and>
   (WriteFileThrew \<in> set (snd (snd (pollRoom botHandle e s))) \<longrightarrow>
      (\<exists>i. observed e = Some i \<and> \<not> write_ok e \<and>
         pollRoom botHandle e s =
           (Normal,
            s\<lparr>lastSeenId := Some i,
              cache_file := (if write_truncates e then None else cache_file s)\<rparr>,
            [Fetch, WriteFileThrew, ConsoleError])))"
proof (intro conjI impI)
  show "fst (poll handle e s) = Normal" by (rule poll_Normal)
  show "fst (pollRoom botHandle e s) = Normal" by (rule pollRoom_Normal)
  show "map fst (sched (poll handle) evs out s) = resumed evs out"
    by (rule sched_resumed)
  show "map fst (sched (pollRoom botHandle) evs out s) = resumed evs out"
    by (rule sched_resumed)
next
  assume "WriteFileThrew \<in> set (snd (snd (poll handle e s)))"
  from poll_write_threw [OF this]
  show "\<exists>i. observed e = Some i \<and> \<not> write_ok e \<and>
         poll handle e s =
           (Normal,
            s\<lparr>lastSeenId := Some i,
              cache_file := (if write_truncates e then None else cache_file s)\<rparr>,
            [Fetch, WriteFileThrew, ConsoleError])"
    by (auto simp: observed_def)
next
  assume "WriteFileThrew \<in> set (snd (snd (pollRoom botHandle e s)))"
  from pollRoom_write_threw [OF this]
  show "\<exists>i. observed e = Some i \<and> \<not> write_ok e \<and>
         pollRoom botHandle e s =
           (Normal,
            s\<lparr>lastSeenId := Some i,
              cache_file := (if write_truncates e then None else cache_file s)\<rparr>,
            [Fetch, WriteFileThrew, ConsoleError])"
    by (auto simp: observed_def)
qed

theorem persistence_failure_is_caught_witness:
  "WriteFileThrew \<in> set (snd (snd (poll ''claudemm'' (truncating msg2) at_m1))) \<and>
   WriteFileThrew \<in> set (snd (snd (pollRoom ''claudemm'' (truncating msg2) at_m1))) \<and>
   fst (poll ''claudemm'' (truncating msg2) at_m1) = Normal \<and>
   fst (pollRoom ''claudemm'' (truncating msg2) at_m1) = Normal \<and>
   map fst (sched (poll ''claudemm'') overlapped [] at_m1) = resumed overlapped [] \<and>
   (\<exists>i. observed (truncating msg2) = Some i \<and> \<not> write_ok (truncating msg2) \<and>
      poll ''claudemm'' (truncating msg2) at_m1 =
        (Normal,
         at_m1\<lparr>lastSeenId := Some i,
           cache_file := (if write_truncates (truncating msg2) then None else cache_file at_m1)\<rparr>,
         [Fetch, WriteFileThrew, ConsoleError])) \<and>
   (\<exists>i. observed (truncating msg2) = Some i \<and> \<not> write_ok (truncating msg2) \<and>
      pollRoom ''claudemm'' (truncating msg2) at_m1 =
        (Normal,
         at_m1\<lparr>lastSeenId := Some i,
           cache_file := (if write_truncates (truncating msg2) then None else cache_file at_m1)\<rparr>,
         [Fetch, WriteFileThrew, ConsoleError])) \<and>
   cache_file (fst (snd (poll ''claudemm'' (truncating msg2) at_m1))) = None \<and>
   cache_file (fst (snd (poll ''claudemm'' (unwritable msg2) at_m1))) = Some ''m1''"
proof -
  have a1: "WriteFileThrew \<in> set (snd (snd (poll ''claudemm'' (truncating msg2) at_m1)))"
    by (simp add: sample_defs cycle_defs)
  have a2: "WriteFileThrew \<in> set (snd (snd (pollRoom ''claudemm'' (truncating msg2) at_m1)))"
    by (simp add: sample_defs cycle_defs)
  have a3: "cache_file (fst (snd (poll ''claudemm'' (truncating msg2) at_m1))) = None"
    "cache_file (fst (snd (poll ''claudemm'' (unwritable msg2) at_m1))) = Some ''m1''"
    by (simp_all add: sample_defs cycle_defs)
  from persistence_failure_is_caught
    [where handle = "''claudemm''" and botHandle = "''claudemm''" and e = "truncating msg2"
       and s = at_m1 and evs = overlapped and out = "[]"]
    a1 a2 a3
  show ?thesis by blast
qed

section \<open>Claim C5: the self-authorship test\<close>

text \<open>
  The unified poller lower-cases both the handle and the body, so a body that contains the
  handle only in another letter casing is treated as self-authored; this holds for the
  accented letters too.
\<close>

theorem self_authorship_ignores_case_in_pollRoom:
  "body shouted = Some ''BOT says CHECK ROOM'' \<and>
   \<not> str_includes ''BOT says CHECK ROOM'' (BOT_HANDLE ''bot'') \<and>
   \<not> str_includes ''BOT says CHECK ROOM'' ''bot'' \<and>
   selfAuthored_pollRoom (BOT_HANDLE ''bot'') shouted \<and>
   body accented = Some (CHR 0xE9 # '' says check room'') \<and>
   \<not> str_includes (CHR 0xE9 # '' says check room'') [CHR 0xC9] \<and>
   selfAuthored_pollRoom (BOT_HANDLE [CHR 0xC9]) accented"
  by (simp add: sample_defs cycle_defs)

text \<open>
  Claim C5, as amended. In the minimal poller the self-authorship test is a case-sensitive
  substring check: for every handle and every message body, it holds exactly when the raw
  body contains the handle with matching letter case. In the unified poller the test
  ignores letter case: it holds exactly when some run of the body matches the handle code
  unit by code unit up to lower-casing, where lower-casing moves the code units 65 to 90
  (\<open>A\<close>..\<open>Z\<close>) and 192 to 222 other than 215 (the accented capitals of Latin-1) up by 32
  and leaves every other code unit as it is.
\<close>

theorem self_authorship_test:
  "selfAuthored_poll handle b = (\<exists>ps ss. b = ps @ handle @ ss) \<and>
   selfAuthored_pollRoom (BOT_HANDLE handleArg) \<lparr>msg_id = i, body = Some b\<rparr> =
     (\<exists>ps u ss. b = ps @ u @ ss \<and>
        list_all2 (\<lambda>x y. toLowerCase_char x = toLowerCase_char y) u handleArg) \<and>
   (of_char (toLowerCase_char c) :: nat) =
     (if (65 \<le> (of_char c :: nat) \<and> (of_char c :: nat) \<le> 90) \<or>
         (192 \<le> (of_char c :: nat) \<and> (of_char c :: nat) \<le> 222 \<and> (of_char c :: nat) \<noteq> 215)
      then of_char c + 32 else of_char c)"
proof (intro conjI)
  show "selfAuthored_poll handle b = (\<exists>ps ss. b = ps @ handle @ ss)"
    by (simp add: selfAuthored_poll_def includes_iff_sublist sublist_def)
  show "selfAuthored_pollRoom (BOT_HANDLE handleArg) \<lparr>msg_id = i, body = Some b\<rparr> =
     (\<exists>ps u ss. b = ps @ u @ ss \<and>
        list_all2 (\<lambda>x y. toLowerCase_char x = toLowerCase_char y) u handleArg)"
    by (simp add: selfAuthored_pollRoom_def bodyStr_def BOT_HANDLE_def toLowerCase_def
          includes_map)
  show "(of_char (toLowerCase_char c) :: nat) =
     (if (65 \<le> (of_char c :: nat) \<and> (of_char c :: nat) \<le> 90) \<or>
         (192 \<le> (of_char c :: nat) \<and> (of_char c :: nat) \<le> 222 \<and> (of_char c :: nat) \<noteq> 215)
      then of_char c + 32 else of_char c)"
    using toLowerCase_char_code [of c] by (simp add: isUpperCase_char_def Let_def)
qed

theorem self_authorship_test_witness:
  "\<not> selfAuthored_poll ''bot'' ''BOT says hi'' \<and>
   selfAuthored_poll ''bot'' ''BOT says hi'' = (\<exists>ps ss. ''BOT says hi'' = ps @ ''bot'' @ ss) \<and>
   selfAuthored_pollRoom (BOT_HANDLE ''Bot'') \<lparr>msg_id = ''m2'', body = Some ''BOT says hi''\<rparr> \<and>
   (\<exists>ps u ss. ''BOT says hi'' = ps @ u @ ss \<and>
      list_all2 (\<lambda>x y. toLowerCase_char x = toLowerCase_char y) u ''Bot'') \<and>
   (of_char (toLowerCase_char (CHR 0xC9)) :: nat) = 233"
proof -
  have a1: "\<not> selfAuthored_poll ''bot'' ''BOT says hi''"
    by (simp add: cycle_defs)
  have a2: "selfAuthored_pollRoom (BOT_HANDLE ''Bot'')
              \<lparr>msg_id = ''m2'', body = Some ''BOT says hi''\<rparr>"
    by (simp add: cycle_defs)
  have a3: "(of_char (CHR 0xC9) :: nat) = 201" by simp
  from self_authorship_test [of "''bot''" "''BOT says hi''" "''Bot''" "''m2''" "CHR 0xC9"]
    a1 a2 a3
  show ?thesis by simp
qed

section \<open>Claim C8: an unreachable target\<close>

text \<open>
  The minimal poller has no probe: its dispatch starts with the injection itself, and when
  tmux cannot be reached that command rejects, the \<open>try\<close> block is left by the exception
  and the cycle's \<open>catch\<close> logs it. And when cycles overlap, a message whose dispatch found
  the target unreachable is dispatched again: an older answer moves the watermark back, and
  the next tick that observes the message finds it new.
\<close>

theorem poll_dispatch_has_no_probe:
  "poll_try ''claudemm'' (unreachable msg2) at_m1 =
     (Thrown, \<lparr>lastSeenId = Some ''m2'', cache_file = Some ''m2''\<rparr>,
      [WriteFile ''m2'', Dispatch [(SendKeysLiteral, False)]]) \<and>
   poll ''claudemm'' (unreachable msg2) at_m1 =
     (Normal, \<lparr>lastSeenId = Some ''m2'', cache_file = Some ''m2''\<rparr>,
      [Fetch, WriteFile ''m2'', Dispatch [(SendKeysLiteral, False)], ConsoleError]) \<and>
   map snd (sched (pollRoom ''claudemm'') overlapped_unreachable [] at_m1) =
     [[Fetch, WriteFile ''m3'', Dispatch [(HasSession, False)], ConsoleWarn],
      [Fetch, WriteFile ''m2'',
       Dispatch [(HasSession, True), (SendKeysLiteral, True), (Sleep, True),
                 (SendKeysEnter, True)]],
      [Fetch, WriteFile ''m3'',
       Dispatch [(HasSession, True), (SendKeysLiteral, True), (Sleep, True),
                 (SendKeysEnter, True)]]] \<and>
   dispatchesOf ''m3'' (sched (pollRoom ''claudemm'') overlapped_unreachable [] at_m1) = 2"
  by (simp add: overlapped_unreachable_def sample_defs cycle_defs)

text \<open>
  Claim C8, as amended. In the unified poller every dispatch first probes the target
  (\<open>tmux has-session\<close>); when the probe fails, the dispatch issues no further command,
  warns, and returns without raising. In the minimal poller a dispatch starts with the
  injection, with no probe; when that command fails, the exception leaves the \<open>try\<close>
  block and is logged by the cycle's \<open>catch\<close>. In both pollers the watermark has already
  advanced to the message's id, in the variable and in the cache file, so that, as long as
  no cycle overlaps another, no later cycle dispatches that message again.
\<close>

theorem dispatch_unreachable_no_retry:
  assumes "fetched e = Rows (Some (m # rest))"
  shows "(pollRoom botHandle e s = (c, s1, tr) \<and> Dispatch steps \<in> set tr \<longrightarrow>
            take 1 steps = [(HasSession, exec_ok e HasSession)] \<and>
            (\<not> exec_ok e HasSession \<longrightarrow>
               steps = [(HasSession, False)] \<and>
               pollRoom_try botHandle e s =
                 (Normal, s1, [WriteFile (msg_id m), Dispatch [(HasSession, False)], ConsoleWarn])) \<and>
            (distinct (remdups_adj (msg_id m # observations (serial xs))) \<longrightarrow>
               dispatchesOf (msg_id m) (sched (pollRoom botHandle) (serial xs) [] s1) = 0)) \<and>
         (poll handle e s = (c', s1', tr') \<and> Dispatch steps' \<in> set tr' \<longrightarrow>
            take 1 steps' = [(SendKeysLiteral, exec_ok e SendKeysLiteral)] \<and>
            (\<not> exec_ok e SendKeysLiteral \<longrightarrow>
               steps' = [(SendKeysLiteral, False)] \<and>
               poll_try handle e s =
                 (Thrown, s1', [WriteFile (msg_id m), Dispatch [(SendKeysLiteral, False)]]) \<and>
               tr' = [Fetch, WriteFile (msg_id m), Dispatch [(SendKeysLiteral, False)],
                      ConsoleError]) \<and>
            (distinct (remdups_adj (msg_id m # observations (serial xs))) \<longrightarrow>
               dispatchesOf (msg_id m) (sched (poll handle) (serial xs) [] s1') = 0))"
proof (intro conjI impI)
  assume a: "pollRoom botHandle e s = (c, s1, tr) \<and> Dispatch steps \<in> set tr"
  from pollRoom_dispatch_shape [of botHandle e s c s1 tr steps] a assms have
    st: "cache_file s1 = Some (msg_id m)" "lastSeenId s1 = Some (msg_id m)" and
    steps: "steps = execPromise (exec_ok e) [HasSession, SendKeysLiteral, Sleep, SendKeysEnter]" and
    t: "pollRoom_try botHandle e s =
          (Normal, s1, [WriteFile (msg_id m), Dispatch steps] @
                         (if rejected steps then [ConsoleWarn] else []))"
    by auto
  from st have settled: "settled (msg_id m) s1" by (simp add: settled_def)
  show "take 1 steps = [(HasSession, exec_ok e HasSession)]"
    using steps by simp
  show "steps = [(HasSession, False)]" if "\<not> exec_ok e HasSession"
    using steps that by simp
  show "pollRoom_try botHandle e s =
          (Normal, s1, [WriteFile (msg_id m), Dispatch [(HasSession, False)], ConsoleWarn])"
    if "\<not> exec_ok e HasSession"
    using t steps that by (simp add: rejected_def)
  show "dispatchesOf (msg_id m) (sched (pollRoom botHandle) (serial xs) [] s1) = 0"
    if "distinct (remdups_adj (msg_id m # observations (serial xs)))"
    using settled_never_dispatched [OF pollRoom_idempotent settled that] .
next
  assume a: "poll handle e s = (c', s1', tr') \<and> Dispatch steps' \<in> set tr'"
  from poll_dispatch_shape [of handle e s c' s1' tr' steps'] a assms have
    st: "cache_file s1' = Some (msg_id m)" "lastSeenId s1' = Some (msg_id m)" and
    steps: "steps' = execPromise (exec_ok e) [SendKeysLiteral, Sleep, SendKeysEnter]" and
    t: "poll_try handle e s =
          (if rejected steps' then Thrown else Normal, s1',
           [WriteFile (msg_id m), Dispatch steps'])" and
    tr: "tr' = [Fetch, WriteFile (msg_id m), Dispatch steps'] @
                 (if rejected steps' then [ConsoleError] else [])"
    by auto
  from st have settled: "settled (msg_id m) s1'" by (simp add: settled_def)
  show "take 1 steps' = [(SendKeysLiteral, exec_ok e SendKeysLiteral)]"
    using steps by simp
  show "steps' = [(SendKeysLiteral, False)]" if "\<not> exec_ok e SendKeysLiteral"
    using steps that by simp
  show "poll_try handle e s =
          (Thrown, s1', [WriteFile (msg_id m), Dispatch [(SendKeysLiteral, False)]])"
    if "\<not> exec_ok e SendKeysLiteral"
    using t steps that by (simp add: rejected_def)
  show "tr' = [Fetch, WriteFile (msg_id m), Dispatch [(SendKeysLiteral, False)], ConsoleError]"
    if "\<not> exec_ok e SendKeysLiteral"
    using tr steps that by (simp add: rejected_def)
  show "dispatchesOf (msg_id m) (sched (poll handle) (serial xs) [] s1') = 0"
    if "distinct (remdups_adj (msg_id m # observations (serial xs)))"
    using settled_never_dispatched [OF poll_idempotent settled that] .
qed

theorem dispatch_unreachable_no_retry_witness:
  "fetched (unreachable msg2) = Rows (Some (msg2 # [])) \<and>
   pollRoom ''claudemm'' (unreachable msg2) at_m1 =
     (Normal, \<lparr>lastSeenId = Some ''m2'', cache_file = Some ''m2''\<rparr>,
      [Fetch, WriteFile ''m2'', Dispatch [(HasSession, False)], ConsoleWarn]) \<and>
   Dispatch [(HasSession, False)] \<in>
     set [Fetch, WriteFile ''m2'', Dispatch [(HasSession, False)], ConsoleWarn] \<and>
   poll ''claudemm'' (unreachable msg2) at_m1 =
     (Normal, \<lparr>lastSeenId = Some ''m2'', cache_file = Some ''m2''\<rparr>,
      [Fetch, WriteFile ''m2'', Dispatch [(SendKeysLiteral, False)], ConsoleError]) \<and>
   Dispatch [(SendKeysLiteral, False)] \<in>
     set [Fetch, WriteFile ''m2'', Dispatch [(SendKeysLiteral, False)], ConsoleError] \<and>
   \<not> exec_ok (unreachable msg2) HasSession \<and> \<not> exec_ok (unreachable msg2) SendKeysLiteral \<and>
   distinct (remdups_adj
     (msg_id msg2 # observations (serial [Some (delivers msg2), None, Some (delivers msg2)]))) \<and>
   pollRoom_try ''claudemm'' (unreachable msg2) at_m1 =
     (Normal, \<lparr>lastSeenId = Some ''m2'', cache_file = Some ''m2''\<rparr>,
      [WriteFile (msg_id msg2), Dispatch [(HasSession, False)], ConsoleWarn]) \<and>
   poll_try ''claudemm'' (unreachable msg2) at_m1 =
     (Thrown, \<lparr>lastSeenId = Some ''m2'', cache_file = Some ''m2''\<rparr>,
      [WriteFile (msg_id msg2), Dispatch [(SendKeysLiteral, False)]]) \<and>
   dispatchesOf (msg_id msg2)
     (sched (pollRoom ''claudemm'') (serial [Some (delivers msg2), None, Some (delivers msg2)]) []
        \<lparr>lastSeenId = Some ''m2'', cache_file = Some ''m2''\<rparr>) = 0 \<and>
   dispatchesOf (msg_id msg2)
     (sched (poll ''claudemm'') (serial [Some (delivers msg2), None, Some (delivers msg2)]) []
        \<lparr>lastSeenId = Some ''m2'', cache_file = Some ''m2''\<rparr>) = 0"
proof -
  have h: "fetched (unreachable msg2) = Rows (Some (msg2 # []))" by (simp add: sample_defs)
  have a1: "pollRoom ''claudemm'' (unreachable msg2) at_m1 =
     (Normal, \<lparr>lastSeenId = Some ''m2'', cache_file = Some ''m2''\<rparr>,
      [Fetch, WriteFile ''m2'', Dispatch [(HasSession, False)], ConsoleWarn])"
    by (simp add: sample_defs cycle_defs)
  have a2: "Dispatch [(HasSession, False)] \<in>
     set [Fetch, WriteFile ''m2'', Dispatch [(HasSession, False)], ConsoleWarn]"
    by simp
  have a3: "poll ''claudemm'' (unreachable msg2) at_m1 =
     (Normal, \<lparr>lastSeenId = Some ''m2'', cache_file = Some ''m2''\<rparr>,
      [Fetch, WriteFile ''m2'', Dispatch [(SendKeysLiteral, False)], ConsoleError])"
    by (simp add: sample_defs cycle_defs)
  have a4: "Dispatch [(SendKeysLiteral, False)] \<in>
     set [Fetch, WriteFile ''m2'', Dispatch [(SendKeysLiteral, False)], ConsoleError]"
    by simp
  have a5: "\<not> exec_ok (unreachable msg2) HasSession"
    "\<not> exec_ok (unreachable msg2) SendKeysLiteral"
    by (simp_all add: sample_defs)
  have a6: "distinct (remdups_adj
     (msg_id msg2 # observations (serial [Some (delivers msg2), None, Some (delivers msg2)])))"
    by (simp add: sample_defs observed_def)
  from dispatch_unreachable_no_retry
    [where e = "unreachable msg2" and m = msg2 and rest = "[]", OF h,
     where botHandle = "''claudemm''" and handle = "''claudemm''" and s = at_m1
       and c = Normal and c' = Normal
       and ?s1.0 = "\<lparr>lastSeenId = Some ''m2'', cache_file = Some ''m2''\<rparr>"
       and s1' = "\<lparr>lastSeenId = Some ''m2'', cache_file = Some ''m2''\<rparr>"
       and tr = "[Fetch, WriteFile ''m2'', Dispatch [(HasSession, False)], ConsoleWarn]"
       and tr' = "[Fetch, WriteFile ''m2'', Dispatch [(SendKeysLiteral, False)], ConsoleError]"
       and steps = "[(HasSession, False)]" and steps' = "[(SendKeysLiteral, False)]"
       and xs = "[Some (delivers msg2), None, Some (delivers msg2)]"]
    h a1 a2 a3 a4 a5 a6
  show ?thesis by blast
qed

section \<open>Claim C10: a message without a body\<close>

text \<open>
  On the first observation (watermark none) the minimal poller does not look at the body:
  it does not throw, and the watermark advances. And with an empty handle the unified
  poller finds the handle in every body, the empty one included, so that a message without
  a body is classified as self-authored.
\<close>

theorem null_body_without_throw:
  "fetched (delivers nobody) = Rows (Some [nobody]) \<and> body nobody = None \<and>
   Some (msg_id nobody) \<noteq> lastSeenId fresh \<and>
   poll_try ''claudemm'' (delivers nobody) fresh =
     (Normal, \<lparr>lastSeenId = Some ''m2'', cache_file = Some ''m2''\<rparr>, [WriteFile ''m2'']) \<and>
   lastSeenId (fst (snd (poll ''claudemm'' (delivers nobody) fresh))) \<noteq> lastSeenId fresh \<and>
   \<not> falsy (lastSeenId at_m1) \<and> Some (msg_id nobody) \<noteq> lastSeenId at_m1 \<and>
   selfAuthored_pollRoom (BOT_HANDLE []) nobody"
  by (simp add: sample_defs cycle_defs)

text \<open>
  Claim C10, as amended. If a cycle observes a new message (id different from the
  watermark) whose body is null or undefined, the unified poller treats the body as the
  empty string: the message is not a trigger, it is classified as self-authored only when
  the handle is empty, the watermark advances to its id (the variable always, the cache
  file when the write succeeds) and no dispatch occurs. The minimal poller, when the
  watermark is set (neither none nor the empty string), instead throws on the body check,
  and the cycle ends in the generic \<open>catch\<close> with the watermark unchanged.
\<close>

theorem null_body:
  assumes "fetched e = Rows (Some (m # rest))"
    and "Some (msg_id m) \<noteq> lastSeenId s" and "body m = None"
  shows "pollRoom botHandle e s =
           pollRoom botHandle (e\<lparr>fetched := Rows (Some (m\<lparr>body := Some []\<rparr> # rest))\<rparr>) s \<and>
         \<not> trigger_pollRoom botHandle m \<and>
         (selfAuthored_pollRoom botHandle m \<longleftrightarrow> botHandle = []) \<and>
         dispatches (snd (snd (pollRoom botHandle e s))) = 0 \<and>
         lastSeenId (fst (snd (pollRoom botHandle e s))) = Some (msg_id m) \<and>
         (write_ok e \<longrightarrow> cache_file (fst (snd (pollRoom botHandle e s))) = Some (msg_id m)) \<and>
         (\<not> falsy (lastSeenId s) \<longrightarrow>
            poll_try handle e s = (Thrown, s, []) \<and>
            poll handle e s = (Normal, s, [Fetch, ConsoleError]))"
  using assms
  by (simp add: poll_def poll_try_def selfAuthored_poll_def pollRoom_def pollRoom_try_def
        selfAuthored_pollRoom_def trigger_pollRoom_def bodyStr_def advance_cases
        toLowerCase_def)

theorem null_body_witness:
  "fetched (delivers nobody) = Rows (Some (nobody # [])) \<and>
   Some (msg_id nobody) \<noteq> lastSeenId at_m1 \<and> body nobody = None \<and>
   write_ok (delivers nobody) \<and> \<not> falsy (lastSeenId at_m1) \<and>
   \<not> trigger_pollRoom ''claudemm'' nobody \<and>
   \<not> selfAuthored_pollRoom ''claudemm'' nobody \<and>
   dispatches (snd (snd (pollRoom ''claudemm'' (delivers nobody) at_m1))) = 0 \<and>
   lastSeenId (fst (snd (pollRoom ''claudemm'' (delivers nobody) at_m1))) =
     Some (msg_id nobody) \<and>
   cache_file (fst (snd (pollRoom ''claudemm'' (delivers nobody) at_m1))) =
     Some (msg_id nobody) \<and>
   poll_try ''claudemm'' (delivers nobody) at_m1 = (Thrown, at_m1, []) \<and>
   poll ''claudemm'' (delivers nobody) at_m1 = (Normal, at_m1, [Fetch, ConsoleError])"
proof -
  have h1: "fetched (delivers nobody) = Rows (Some (nobody # []))" by (simp add: sample_defs)
  have h2: "\<not> falsy (lastSeenId at_m1)" by (simp add: sample_defs falsy_def)
  have h3: "Some (msg_id nobody) \<noteq> lastSeenId at_m1" by (simp add: sample_defs)
  have h4: "body nobody = None" by (simp add: sample_defs)
  have h5: "write_ok (delivers nobody)" by (simp add: sample_defs)
  have h6: "''claudemm'' \<noteq> []" by simp
  from null_body [OF h1 h3 h4, of "''claudemm''" "''claudemm''"] h1 h2 h3 h4 h5 h6
  show ?thesis by blast
qed

section \<open>Claim C9: overlapping cycles\<close>

text \<open>
  Two ticks in a row leave two fetches outstanding; the second cycle then runs while the
  first is still waiting, and both write the watermark, the older answer moving it back.
\<close>

theorem ticks_overlap:
  "length (pending [Tick (delivers msg2), Tick (delivers msg3)] []) = 2 \<and>
   map (\<lambda>(e, tr). (observed e, updates tr)) (sched (poll ''claudemm'') overlapped [] at_m1) =
     [(Some ''m3'', [''m3'']), (Some ''m2'', [''m2'']), (Some ''m3'', [''m3''])] \<and>
   map (\<lambda>(e, tr). (observed e, updates tr)) (sched (pollRoom ''claudemm'') overlapped [] at_m1) =
     [(Some ''m3'', [''m3'']), (Some ''m2'', [''m2'']), (Some ''m3'', [''m3''])]"
  by (simp add: overlapped_def sample_defs cycle_defs)

lemma pending_append: "pending (evs @ evs') out = pending evs' (pending evs out)"
proof (induction evs arbitrary: out)
  case Nil
  show ?case by simp
next
  case (Cons ev evs)
  show ?case by (cases ev) (simp_all add: Cons.IH)
qed

text \<open>
  Claim C9, as amended. Every timer tick starts a cycle, whether or not an earlier fetch is
  still outstanding: no tick is skipped or coalesced. A tick that fires while any number of
  fetches are outstanding adds one more, and its cycle runs as soon as its own fetch is
  answered, on the state as it is then, the earlier fetches staying outstanding. Cycles can
  therefore overlap at the \<open>await\<close> of the fetch, and more than one watermark writer can
  be in flight.
\<close>

theorem ticks_are_never_skipped:
  "length (pending (evs @ [Tick e]) out) = Suc (length (pending evs out)) \<and>
   sched (poll handle) (Tick e # Resume (length out) # evs) out s =
     (e, snd (snd (poll handle e s))) # sched (poll handle) evs out (fst (snd (poll handle e s))) \<and>
   sched (pollRoom botHandle) (Tick e # Resume (length out) # evs) out s =
     (e, snd (snd (pollRoom botHandle e s))) #
     sched (pollRoom botHandle) evs out (fst (snd (pollRoom botHandle e s)))"
  by (simp add: pending_append split: prod.splits)

theorem ticks_are_never_skipped_witness:
  "length (pending ([Tick (delivers msg2)] @ [Tick (delivers msg3)]) []) =
     Suc (length (pending [Tick (delivers msg2)] [])) \<and>
   length (pending [Tick (delivers msg2)] []) = 1 \<and>
   sched (poll ''claudemm'')
     (Tick (delivers msg3) # Resume (length [delivers msg2]) # []) [delivers msg2] at_m1 =
     (delivers msg3, snd (snd (poll ''claudemm'' (delivers msg3) at_m1))) #
     sched (poll ''claudemm'') [] [delivers msg2]
       (fst (snd (poll ''claudemm'' (delivers msg3) at_m1)))"
proof -
  have a: "length (pending [Tick (delivers msg2)] []) = 1" by simp
  from ticks_are_never_skipped
    [where evs = "[Tick (delivers msg2)]" and e = "delivers msg3" and out = "[]"]
    ticks_are_never_skipped
    [where evs = "[]" and e = "delivers msg3" and out = "[delivers msg2]"
       and handle = "''claudemm''" and s = at_m1]
    a
  show ?thesis by blast
qed

end
